theory Spec2Isabelle
  imports Main "HOL-Library.Word"
begin

section \<open>Data model\<close>

text \<open>
  The program is the Python script \<^verbatim>\<open>sendData.py\<close>: the functions \<^verbatim>\<open>toU32\<close> and
  \<^verbatim>\<open>chopMessage\<close>, and the loop at the end of the script that sends the blocks. The
  lines between them, which find the USB device and its two endpoints and fix the message,
  are not part of the model: the loop is modelled for any list of blocks and any
  behaviour of the endpoints.

  A Python \<^verbatim>\<open>bytes\<close> object is a list of 8-bit words. A Python \<^verbatim>\<open>str\<close> is a list of
  Unicode code points, each a natural number of at most \<^verbatim>\<open>0x10FFFF\<close>; \<^verbatim>\<open>len\<close> of a
  \<^verbatim>\<open>str\<close> counts code points. Python integers are unbounded, so they are \<open>int\<close>.
\<close>

type_synonym byte = "8 word"
type_synonym bytes = "byte list"
type_synonym pystr = "nat list"

text \<open>A string literal of the source, as a \<^verbatim>\<open>str\<close>.\<close>

definition lit :: "string \<Rightarrow> pystr" where
  "lit cs = map of_char cs"

text \<open>The exceptions that the framing code can raise.\<close>

datatype frame_exn = ValueError | UnicodeEncodeError

section \<open>Built-ins used by the framer\<close>

text \<open>
  \<^verbatim>\<open>bytes(iterable)\<close> raises \<^verbatim>\<open>ValueError\<close> unless every element is in
  \<^verbatim>\<open>range(256)\<close>.
\<close>

definition py_bytes :: "int list \<Rightarrow> frame_exn + bytes" where
  "py_bytes xs =
     (if list_all (\<lambda>x. 0 \<le> x \<and> x < 256) xs then Inr (map word_of_int xs)
      else Inl ValueError)"

text \<open>
  \<^verbatim>\<open>str.encode()\<close> with its default arguments: UTF-8, error handler \<^verbatim>\<open>strict\<close>.
  A surrogate code point (\<^verbatim>\<open>0xD800\<close> to \<^verbatim>\<open>0xDFFF\<close>) raises
  \<^verbatim>\<open>UnicodeEncodeError\<close>; every other code point gives one to four bytes. The last
  branch is the four-byte form, for the code points from \<^verbatim>\<open>0x10000\<close> to \<^verbatim>\<open>0x10FFFF\<close>.
\<close>

definition encode_char :: "nat \<Rightarrow> frame_exn + bytes" where
  "encode_char c =
     (if c < 0x80 then Inr [of_nat c]
      else if c < 0x800 then Inr [of_nat (0xC0 + c div 64), of_nat (0x80 + c mod 64)]
      else if 0xD800 \<le> c \<and> c \<le> 0xDFFF then Inl UnicodeEncodeError
      else if c < 0x10000 then
        Inr [of_nat (0xE0 + c div 4096), of_nat (0x80 + (c div 64) mod 64),
             of_nat (0x80 + c mod 64)]
      else
        Inr [of_nat (0xF0 + c div 262144), of_nat (0x80 + (c div 4096) mod 64),
             of_nat (0x80 + (c div 64) mod 64), of_nat (0x80 + c mod 64)])"

fun encode :: "pystr \<Rightarrow> frame_exn + bytes" where
  "encode [] = Inr []"
| "encode (c # cs) =
     (case encode_char c of
        Inl e \<Rightarrow> Inl e
      | Inr b \<Rightarrow> (case encode cs of Inl e \<Rightarrow> Inl e | Inr bs \<Rightarrow> Inr (b @ bs)))"

text \<open>The slice \<^verbatim>\<open>data[i:j]\<close> for \<^verbatim>\<open>0 <= i <= j\<close>.\<close>

definition slice :: "'a list \<Rightarrow> nat \<Rightarrow> nat \<Rightarrow> 'a list" where
  "slice data i j = take (j - i) (drop i data)"

section \<open>The framer\<close>

text \<open>
  \<^verbatim>\<open>def toU32(x):
      return bytes([x % 256, (x >> 8) % 256, (x >> 16) % 256, (x >> 24) % 256])\<close>
  Python's \<^verbatim>\<open>%\<close> with a positive divisor and \<^verbatim>\<open>>>\<close> both round towards minus
  infinity, as \<open>mod\<close> and \<open>drop_bit\<close> on \<open>int\<close> do.
\<close>

definition toU32 :: "int \<Rightarrow> frame_exn + bytes" where
  "toU32 x =
     py_bytes [x mod 256, drop_bit 8 x mod 256, drop_bit 16 x mod 256, drop_bit 24 x mod 256]"

text \<open>
  The loop of \<^verbatim>\<open>chopMessage\<close>:
  \<^verbatim>\<open>while i < strLen:
      end_pos = min(strLen, i + 64)
      result.append(data[i:end_pos])
      i = end_pos\<close>
\<close>

function chop_loop :: "bytes \<Rightarrow> nat \<Rightarrow> bytes list \<Rightarrow> bytes list" where
  "chop_loop data i result =
     (if i < length data then
        (let end_pos = min (length data) (i + 64)
         in chop_loop data end_pos (result @ [slice data i end_pos]))
      else result)"
  by pat_completeness auto
termination
  by (relation "measure (\<lambda>(data, i, result). length data - i)") auto

text \<open>
  \<^verbatim>\<open>def chopMessage(str):
      data = toU32(len(str)) + str.encode()
      strLen = len(data)
      result = []
      i = 0
      ... the loop ...
      return result\<close>
  The header is evaluated before the encoding, so an exception of \<^verbatim>\<open>toU32\<close> would
  come first.
\<close>

definition chopMessage :: "pystr \<Rightarrow> frame_exn + bytes list" where
  "chopMessage str =
     (case toU32 (int (length str)) of
        Inl e \<Rightarrow> Inl e
      | Inr header \<Rightarrow>
          (case encode str of
             Inl e \<Rightarrow> Inl e
           | Inr payload \<Rightarrow> Inr (chop_loop (header @ payload) 0 [])))"

section \<open>The transfer loop\<close>

text \<open>
  The endpoints \<^verbatim>\<open>outep\<close> and \<^verbatim>\<open>inep\<close> belong to the USB library, not to the
  script. The script calls \<^verbatim>\<open>outep.write(block)\<close> and \<^verbatim>\<open>inep.read(64)\<close> once per
  loop round, so a transport is given by what these calls do in each round:
  \<open>write_result t i block\<close> is \<open>None\<close> when the write of round \<open>i\<close> returns and
  \<open>Some e\<close> when it raises \<open>e\<close>; \<open>read_result t i n\<close> is the array that the read of
  round \<open>i\<close> returns, or the exception it raises.
\<close>

record 'e transport =
  write_result :: "nat \<Rightarrow> bytes \<Rightarrow> 'e option"
  read_result :: "nat \<Rightarrow> nat \<Rightarrow> 'e + bytes"

text \<open>
  What the script raises: \<^verbatim>\<open>Exception(message)\<close> by its own \<^verbatim>\<open>raise\<close> statements,
  or whatever a transport call raised, which the script does not catch.
\<close>

datatype 'e transfer_exn = Exception pystr | TransportError 'e

text \<open>
  The effects of a run, in program order: the calls on the two endpoints and the calls
  of \<^verbatim>\<open>print\<close>. \<open>Write block\<close> is the call \<^verbatim>\<open>outep.write(block)\<close> and \<open>Read n\<close> the
  call \<^verbatim>\<open>inep.read(n)\<close>, recorded when the call is made, whether it returns or raises.
  \<open>Print_sending block\<close> is line 61, \<^verbatim>\<open>print("sending: '", block, end="' ...", sep="")\<close>,
  whose text contains Python's rendering of the block; \<open>Print text\<close> is
  \<^verbatim>\<open>print(text)\<close>.
\<close>

datatype event = Print_sending bytes | Print pystr | Write bytes | Read nat

text \<open>
  \<^verbatim>\<open>for i in range(len(blocks)):
      block = blocks[i]
      print("sending: '", block, end="' ...", sep="")
      outep.write(block)
      print(" sent.")
      response = inep.read(64)
      response_str = ''.join([chr(x) for x in response])
      if (i + 1) == len(blocks):
          if len(response) == 0:
              raise Exception("Device expected more data that was announced in the hashshake!")
          if len(response) != 32:
              raise Exception("Device reported an error: " + response_str)
          else:
              print("hash: " + response_str)
      else:
          if len(response) != 0:
              raise Exception("Device reported an error: " + response_str)\<close>
  The loop is a recursion on the index \<open>i\<close>; the events so far are passed along.
\<close>

function transfer_loop ::
  "'e transport \<Rightarrow> bytes list \<Rightarrow> nat \<Rightarrow> event list \<Rightarrow> ('e transfer_exn + unit) \<times> event list"
where
  "transfer_loop t blocks i evs =
     (if i < length blocks then
        (let block = blocks ! i;
             evs = evs @ [Print_sending block, Write block]
         in case write_result t i block of
              Some e \<Rightarrow> (Inl (TransportError e), evs)
            | None \<Rightarrow>
                (let evs = evs @ [Print (lit '' sent.''), Read 64]
                 in case read_result t i 64 of
                      Inl e \<Rightarrow> (Inl (TransportError e), evs)
                    | Inr response \<Rightarrow>
                        (let response_str = map unat response
                         in if i + 1 = length blocks then
                              (if length response = 0 then
                                 (Inl (Exception (lit
                                    ''Device expected more data that was announced in the hashshake!'')),
                                  evs)
                               else if length response \<noteq> 32 then
                                 (Inl (Exception (lit ''Device reported an error: '' @ response_str)),
                                  evs)
                               else
                                 transfer_loop t blocks (i + 1)
                                   (evs @ [Print (lit ''hash: '' @ response_str)]))
                            else
                              (if length response \<noteq> 0 then
                                 (Inl (Exception (lit ''Device reported an error: '' @ response_str)),
                                  evs)
                               else transfer_loop t blocks (i + 1) evs))))
      else (Inr (), evs))"
  by pat_completeness auto
termination
  by (relation "measure (\<lambda>(t, blocks, i, evs). length blocks - i)") auto

definition transfer :: "'e transport \<Rightarrow> bytes list \<Rightarrow> ('e transfer_exn + unit) \<times> event list" where
  "transfer t blocks = transfer_loop t blocks 0 []"

text \<open>
  The names that the specification gives to the two \<^verbatim>\<open>raise\<close> statements of the
  script.
\<close>

definition handshake_message :: pystr where
  "handshake_message = lit ''Device expected more data that was announced in the hashshake!''"

abbreviation IncompleteHandshake :: "'e transfer_exn" where
  "IncompleteHandshake \<equiv> Exception handshake_message"

definition DeviceReportedError :: "pystr \<Rightarrow> 'e transfer_exn" where
  "DeviceReportedError message = Exception (lit ''Device reported an error: '' @ message)"

section \<open>Notions used to state the properties\<close>

text \<open>The unsigned value of a byte string read as a little-endian number.\<close>

fun le_value :: "bytes \<Rightarrow> nat" where
  "le_value [] = 0"
| "le_value (b # bs) = unat b + 256 * le_value bs"

text \<open>The code points that UTF-8 cannot encode.\<close>

definition surrogate :: "nat \<Rightarrow> bool" where
  "surrogate c = (0xD800 \<le> c \<and> c \<le> 0xDFFF)"

text \<open>
  Read off the events of a run: the blocks written, the sizes asked for by the reads,
  and the calls on the endpoints without the prints.
\<close>

fun writes_of :: "event list \<Rightarrow> bytes list" where
  "writes_of [] = []"
| "writes_of (Write b # evs) = b # writes_of evs"
| "writes_of (_ # evs) = writes_of evs"

fun reads_of :: "event list \<Rightarrow> nat list" where
  "reads_of [] = []"
| "reads_of (Read n # evs) = n # reads_of evs"
| "reads_of (_ # evs) = reads_of evs"

fun io_of :: "event list \<Rightarrow> event list" where
  "io_of [] = []"
| "io_of (Write b # evs) = Write b # io_of evs"
| "io_of (Read n # evs) = Read n # io_of evs"
| "io_of (_ # evs) = io_of evs"

text \<open>The events of one loop round that gets as far as its read.\<close>

definition round_events :: "bytes \<Rightarrow> event list" where
  "round_events block = [Print_sending block, Write block, Print (lit '' sent.''), Read 64]"

text \<open>
  Every round before round \<open>i\<close> went through: its write returned and its read returned
  the empty acknowledgement. For \<open>i < length blocks\<close> this is what it takes for the loop
  to arrive at round \<open>i\<close>.
\<close>

definition acked_before :: "'e transport \<Rightarrow> bytes list \<Rightarrow> nat \<Rightarrow> bool" where
  "acked_before t blocks i =
     list_all (\<lambda>j. write_result t j (blocks ! j) = None \<and> read_result t j 64 = Inr []) [0..<i]"

text \<open>
  Two test transports. \<open>replying rs\<close> accepts every write and answers the read of round
  \<open>i\<close> with \<open>rs ! i\<close> (with the empty response beyond the list). \<open>write_fails_at k e\<close>
  acknowledges every round, except that its write of round \<open>k\<close> raises \<open>e\<close>.
\<close>

definition replying :: "bytes list \<Rightarrow> 'e transport" where
  "replying rs =
     \<lparr>write_result = (\<lambda>i block. None),
      read_result = (\<lambda>i n. if i < length rs then Inr (rs ! i) else Inr [])\<rparr>"

definition write_fails_at :: "nat \<Rightarrow> 'e \<Rightarrow> 'e transport" where
  "write_fails_at k e =
     \<lparr>write_result = (\<lambda>i block. if i = k then Some e else None),
      read_result = (\<lambda>i n. Inr [])\<rparr>"

section \<open>Properties of the framer\<close>

subsection \<open>The header\<close>

lemma toU32_bytes:
  "toU32 x = Inr [word_of_int (x mod 256), word_of_int (drop_bit 8 x mod 256),
                  word_of_int (drop_bit 16 x mod 256), word_of_int (drop_bit 24 x mod 256)]"
  by (simp add: toU32_def py_bytes_def)

lemma unat_byte_of_mod: "unat (word_of_int (y mod 256) :: byte) = nat (y mod 256)"
  by (simp add: unat_eq_nat_uint uint_word_of_int)

lemma mod_2_32_split:
  "(x::int) mod 4294967296 =
     x mod 256 + (256 * (x div 256 mod 256) +
       (65536 * (x div 65536 mod 256) + 16777216 * (x div 16777216 mod 256)))"
proof -
  have a: "x mod (256 * 16777216) = 256 * (x div 256 mod 16777216) + x mod 256"
    by (rule zmod_zmult2_eq) simp
  have b: "(x div 256) mod (256 * 65536) =
             256 * (x div 256 div 256 mod 65536) + x div 256 mod 256"
    by (rule zmod_zmult2_eq) simp
  have c: "(x div 256 div 256) mod (256 * 256) =
             256 * (x div 256 div 256 div 256 mod 256) + x div 256 div 256 mod 256"
    by (rule zmod_zmult2_eq) simp
  have q2: "x div 256 div 256 = x div (256 * 256)"
    by (rule zdiv_zmult2_eq [symmetric]) simp
  have q3: "x div (256 * 256) div 256 = x div (256 * 256 * 256)"
    by (rule zdiv_zmult2_eq [symmetric]) simp
  have n: "(256::int) * 16777216 = 4294967296" "(256::int) * 65536 = 16777216"
    "(256::int) * 256 = 65536" "(65536::int) * 256 = 16777216"
    by simp_all
  show ?thesis
    using a b c unfolding q2 q3 unfolding n
    by (simp only: distrib_left mult.assoc [symmetric] n add_ac)
qed

lemma le_value_toU32:
  "\<exists>bs. toU32 x = Inr bs \<and> length bs = 4 \<and> int (le_value bs) = x mod 2 ^ 32"
proof -
  have "int (nat (y mod 256)) = y mod 256" for y :: int
    by simp
  then show ?thesis
    by (simp add: toU32_bytes unat_byte_of_mod drop_bit_eq_div mod_2_32_split)
qed

text \<open>
  Claim C9. \<^verbatim>\<open>toU32\<close> never raises: for every integer \<open>x\<close> (the negative ones
  included) it returns exactly four bytes, and their little-endian unsigned value is
  \<open>x mod 2 ^ 32\<close>. An \<open>x\<close> of \<open>2 ^ 32\<close> or more is therefore not rejected: the
  header holds its remainder.
\<close>

theorem toU32_total_little_endian:
  "\<exists>bs. toU32 x = Inr bs \<and> length bs = 4 \<and> int (le_value bs) = x mod 2 ^ 32"
  by (rule le_value_toU32)

lemma toU32_Inr: "\<exists>header. toU32 x = Inr header \<and> length header = 4"
  by (simp add: toU32_bytes)

subsection \<open>The chopping loop\<close>

declare chop_loop.simps [simp del]

lemma chop_loop_done: "length data \<le> i \<Longrightarrow> chop_loop data i result = result"
  by (subst chop_loop.simps) simp

lemma chop_loop_step:
  "i < length data \<Longrightarrow>
   chop_loop data i result =
     chop_loop data (min (length data) (i + 64))
       (result @ [slice data i (min (length data) (i + 64))])"
  by (subst chop_loop.simps) (simp add: Let_def)

lemma slice_append_drop:
  assumes "i < length data"
  shows "slice data i (min (length data) (i + 64)) @ drop (min (length data) (i + 64)) data
           = drop i data"
proof -
  define k where "k = min (length data - i) 64"
  have e: "min (length data) (i + 64) = k + i"
    using assms by (simp add: k_def)
  have "slice data i (k + i) = take k (drop i data)"
    by (simp add: slice_def)
  moreover have "drop (k + i) data = drop k (drop i data)"
    by simp
  ultimately have
    "slice data i (k + i) @ drop (k + i) data = take k (drop i data) @ drop k (drop i data)"
    by (simp only:)
  then show ?thesis
    by (simp only: e append_take_drop_id)
qed

lemma length_slice:
  "i < length data \<Longrightarrow>
   length (slice data i (min (length data) (i + 64))) = min (length data - i) 64"
  by (simp add: slice_def)

lemma concat_chop_loop: "concat (chop_loop data i result) = concat result @ drop i data"
proof (induction data i result rule: chop_loop.induct)
  case (1 data i result)
  show ?case
  proof (cases "i < length data")
    case False
    then show ?thesis by (simp add: chop_loop_done)
  next
    case True
    show ?thesis
      using "1.IH" [OF True refl] slice_append_drop [OF True]
      by (simp add: chop_loop_step [OF True])
  qed
qed

lemma length_chop_loop:
  "length (chop_loop data i result) = length result + (length data - i + 63) div 64"
proof (induction data i result rule: chop_loop.induct)
  case (1 data i result)
  show ?case
  proof (cases "i < length data")
    case False
    then show ?thesis by (simp add: chop_loop_done)
  next
    case True
    have "length (chop_loop data i result) =
            Suc (length result) + (length data - min (length data) (i + 64) + 63) div 64"
      using "1.IH" [OF True refl] by (simp add: chop_loop_step [OF True])
    also have "\<dots> = length result + (length data - i + 63) div 64"
      using True by (simp add: min_def) arith
    finally show ?thesis .
  qed
qed

lemma set_chop_loop:
  "set (chop_loop data i result) \<subseteq> set result \<union> {b. 1 \<le> length b \<and> length b \<le> 64}"
proof (induction data i result rule: chop_loop.induct)
  case (1 data i result)
  show ?case
  proof (cases "i < length data")
    case False
    then show ?thesis by (simp add: chop_loop_done)
  next
    case True
    have "1 \<le> length (slice data i (min (length data) (i + 64)))
          \<and> length (slice data i (min (length data) (i + 64))) \<le> 64"
      using True by (simp add: length_slice)
    then show ?thesis
      using "1.IH" [OF True refl] by (auto simp add: chop_loop_step [OF True])
  qed
qed

lemma chop_loop_one:
  assumes "0 < length data" and "length data \<le> 64"
  shows "chop_loop data 0 [] = [data]"
proof -
  have "min (length data) 64 = length data"
    using assms by simp
  then show ?thesis
    using assms by (simp add: chop_loop_step chop_loop_done slice_def)
qed

lemma chop_loop_two:
  assumes "64 < length data" and "length data \<le> 128"
  shows "chop_loop data 0 [] = [take 64 data, drop 64 data]"
proof -
  have m: "min (length data) 64 = 64" "min (length data) 128 = length data"
    using assms by simp_all
  have p: "0 < length data"
    using assms by auto
  have "chop_loop data 0 [] = chop_loop data 64 [take 64 data]"
    using chop_loop_step [OF p, of "[]"] by (simp add: m slice_def)
  also have "\<dots> = chop_loop data (length data) [take 64 data, drop 64 data]"
    using chop_loop_step [OF assms(1), of "[take 64 data]"] by (simp add: m slice_def)
  also have "\<dots> = [take 64 data, drop 64 data]"
    by (rule chop_loop_done) simp
  finally show ?thesis .
qed

subsection \<open>The encoding\<close>

lemma encode_char_Inl: "encode_char c = Inl e \<longleftrightarrow> surrogate c \<and> e = UnicodeEncodeError"
  by (auto simp add: encode_char_def surrogate_def)

lemma encode_char_length:
  "encode_char c = Inr b \<Longrightarrow> 1 \<le> length b \<and> (length b = 1 \<longleftrightarrow> c < 0x80)"
  by (auto simp add: encode_char_def split: if_splits)

lemma encode_char_single: "(\<exists>b. encode_char c = Inr [b]) \<longleftrightarrow> c < 0x80"
  by (auto simp add: encode_char_def split: if_splits)

lemma encode_Inl: "encode s = Inl e \<longleftrightarrow> (\<exists>c\<in>set s. surrogate c) \<and> e = UnicodeEncodeError"
proof (induction s)
  case Nil
  show ?case by simp
next
  case (Cons c cs)
  show ?case
  proof (cases "encode_char c")
    case (Inl e')
    then show ?thesis using encode_char_Inl [of c e'] by auto
  next
    case (Inr b)
    then have "\<not> surrogate c" using encode_char_Inl [of c] by (metis Inl_Inr_False)
    then show ?thesis using Inr Cons.IH by (auto split: sum.splits)
  qed
qed

lemma encode_Inr: "(\<exists>p. encode s = Inr p) \<longleftrightarrow> (\<forall>c\<in>set s. \<not> surrogate c)"
proof (cases "encode s")
  case (Inl e)
  then show ?thesis using encode_Inl [of s e] by auto
next
  case (Inr p)
  then show ?thesis using encode_Inl [of s UnicodeEncodeError] by auto
qed

lemma encode_length:
  "encode s = Inr p \<Longrightarrow> length s \<le> length p \<and> (length p = length s \<longleftrightarrow> (\<forall>c\<in>set s. c < 0x80))"
proof (induction s arbitrary: p)
  case Nil
  then show ?case by simp
next
  case (Cons c cs)
  from Cons.prems obtain b bs where b: "encode_char c = Inr b" and bs: "encode cs = Inr bs"
    and p: "p = b @ bs"
    by (auto split: sum.splits)
  from encode_char_length [OF b] Cons.IH [OF bs] show ?case
    unfolding p by auto
qed

lemma chopMessage_Inr:
  assumes "encode s = Inr payload"
  shows "\<exists>header. toU32 (int (length s)) = Inr header \<and> length header = 4
           \<and> chopMessage s = Inr (chop_loop (header @ payload) 0 [])"
  using assms toU32_Inr [of "int (length s)"] by (auto simp add: chopMessage_def)

lemma chopMessage_Inl: "encode s = Inl e \<Longrightarrow> chopMessage s = Inl e"
  using toU32_Inr [of "int (length s)"] by (auto simp add: chopMessage_def)

lemma chopMessage_blocks:
  assumes "encode s = Inr payload"
  shows "\<exists>header blocks. toU32 (int (length s)) = Inr header \<and> chopMessage s = Inr blocks
           \<and> concat blocks = header @ payload
           \<and> length blocks = (4 + length payload + 63) div 64
           \<and> (\<forall>b\<in>set blocks. 1 \<le> length b \<and> length b \<le> 64)"
proof -
  from chopMessage_Inr [OF assms] obtain header where h: "toU32 (int (length s)) = Inr header"
    and l: "length header = 4" and c: "chopMessage s = Inr (chop_loop (header @ payload) 0 [])"
    by blast
  have "\<forall>b\<in>set (chop_loop (header @ payload) 0 []). 1 \<le> length b \<and> length b \<le> 64"
    using set_chop_loop [of "header @ payload" 0 "[]"] by auto
  with h l c show ?thesis
    by (simp add: concat_chop_loop length_chop_loop)
qed

lemma encode_ascii: "\<forall>c\<in>set s. c < 0x80 \<Longrightarrow> encode s = Inr (map of_nat s)"
  by (induction s) (simp_all add: encode_char_def)

lemma encode_e_acute:
  "encode (replicate n 0xE9) = Inr (concat (replicate n [0xC3, 0xA9]))"
  by (induction n) (simp_all add: encode_char_def)

subsection \<open>Claims about the framer\<close>

lemma chopMessage_ascii:
  assumes "\<forall>c\<in>set s. c < 0x80"
  shows "\<exists>header blocks. toU32 (int (length s)) = Inr header \<and> chopMessage s = Inr blocks
           \<and> concat blocks = header @ map of_nat s
           \<and> length blocks = (4 + length s + 63) div 64
           \<and> (\<forall>b\<in>set blocks. 1 \<le> length b \<and> length b \<le> 64)"
  using chopMessage_blocks [OF encode_ascii [OF assms]] by simp

text \<open>
  Claim C1, at a payload outside ASCII. The string of sixty characters \<^verbatim>\<open>U+00E9\<close> has
  a payload of 120 bytes. \<^verbatim>\<open>chopMessage\<close> returns two blocks of 64 and 60 bytes whose
  concatenation is a header followed by these 120 bytes, but the header is the
  little-endian encoding of 60, the number of characters, where the length of the payload
  is 120.
\<close>

theorem chopMessage_header_counts_characters:
  "\<exists>payload b1 b2.
     encode (replicate 60 0xE9) = Inr payload \<and> length payload = 120
     \<and> chopMessage (replicate 60 0xE9) = Inr [b1, b2]
     \<and> length b1 = 64 \<and> length b2 = 60
     \<and> b1 @ b2 = [60, 0, 0, 0] @ payload
     \<and> toU32 120 = Inr [120, 0, 0, 0]"
proof -
  define payload :: bytes where "payload = concat (replicate 60 [0xC3, 0xA9])"
  have e: "encode (replicate 60 0xE9) = Inr payload"
    unfolding payload_def by (rule encode_e_acute)
  have l: "length payload = 120"
    by (simp add: payload_def length_concat sum_list_replicate)
  have h: "toU32 (int (length (replicate 60 (0xE9::nat)))) = Inr [60, 0, 0, 0]"
    by (simp add: toU32_def py_bytes_def drop_bit_eq_div)
  have c: "chopMessage (replicate 60 0xE9) = Inr (chop_loop ([60, 0, 0, 0] @ payload) 0 [])"
    unfolding chopMessage_def h e by simp
  have t: "chop_loop ([60, 0, 0, 0] @ payload) 0 []
             = [take 64 ([60, 0, 0, 0] @ payload), drop 64 ([60, 0, 0, 0] @ payload)]"
    by (rule chop_loop_two) (simp_all add: l)
  have u: "toU32 120 = Inr [120, 0, 0, 0]"
    by (simp add: toU32_def py_bytes_def drop_bit_eq_div)
  show ?thesis
    apply (rule exI [of _ payload])
    apply (rule exI [of _ "take 64 ([60, 0, 0, 0] @ payload)"])
    apply (rule exI [of _ "drop 64 ([60, 0, 0, 0] @ payload)"])
    apply (simp only: e l c t u)
    apply (simp add: l)
    done
qed

text \<open>
  Claim C7. Let the payload of \<open>s\<close> be its encoding. With a payload of 0 bytes
  \<^verbatim>\<open>chopMessage\<close> returns one block, the four header bytes, all zero; with a payload of
  60 bytes it returns one block of 64 bytes; with a payload of 61 bytes it returns two
  blocks, of 64 bytes and of 1 byte, in this order.
\<close>

theorem chopMessage_boundary_lengths:
  assumes "encode s = Inr payload"
  shows "(length payload = 0 \<longrightarrow> chopMessage s = Inr [[0, 0, 0, 0]])
       \<and> (length payload = 60 \<longrightarrow> (\<exists>b. chopMessage s = Inr [b] \<and> length b = 64))
       \<and> (length payload = 61 \<longrightarrow>
            (\<exists>b1 b2. chopMessage s = Inr [b1, b2] \<and> length b1 = 64 \<and> length b2 = 1))"
proof -
  from chopMessage_Inr [OF assms] obtain header where h: "toU32 (int (length s)) = Inr header"
    and l: "length header = 4" and c: "chopMessage s = Inr (chop_loop (header @ payload) 0 [])"
    by blast
  have zero: "chopMessage s = Inr [[0, 0, 0, 0]]" if "length payload = 0"
  proof -
    from that encode_length [OF assms] have "s = []" and "payload = []"
      by simp_all
    then show ?thesis
      by (simp add: chopMessage_def toU32_def py_bytes_def chop_loop_one)
  qed
  have one: "\<exists>b. chopMessage s = Inr [b] \<and> length b = 64" if "length payload = 60"
  proof -
    have "chop_loop (header @ payload) 0 [] = [header @ payload]"
      by (rule chop_loop_one) (simp_all add: l that)
    then show ?thesis
      by (simp add: c l that)
  qed
  have two: "\<exists>b1 b2. chopMessage s = Inr [b1, b2] \<and> length b1 = 64 \<and> length b2 = 1"
    if "length payload = 61"
  proof -
    have "chop_loop (header @ payload) 0 []
            = [take 64 (header @ payload), drop 64 (header @ payload)]"
      by (rule chop_loop_two) (simp_all add: l that)
    then show ?thesis
      by (simp add: c l that)
  qed
  from zero one two show ?thesis
    by blast
qed

theorem chopMessage_boundary_lengths_witness:
  "(encode [] = Inr [] \<and> length ([] :: bytes) = 0 \<and> chopMessage [] = Inr [[0, 0, 0, 0]])
   \<and> (encode (replicate 60 65) = Inr (map of_nat (replicate 60 65))
        \<and> length (map of_nat (replicate 60 65) :: bytes) = 60
        \<and> (\<exists>b. chopMessage (replicate 60 65) = Inr [b] \<and> length b = 64))
   \<and> (encode (replicate 61 65) = Inr (map of_nat (replicate 61 65))
        \<and> length (map of_nat (replicate 61 65) :: bytes) = 61
        \<and> (\<exists>b1 b2. chopMessage (replicate 61 65) = Inr [b1, b2]
              \<and> length b1 = 64 \<and> length b2 = 1))"
proof -
  have e0: "encode [] = Inr []"
    by simp
  have e60: "encode (replicate 60 65) = Inr (map of_nat (replicate 60 65))"
    by (rule encode_ascii) simp
  have e61: "encode (replicate 61 65) = Inr (map of_nat (replicate 61 65))"
    by (rule encode_ascii) simp
  show ?thesis
    using e0 e60 e61 chopMessage_boundary_lengths [OF e0] chopMessage_boundary_lengths [OF e60]
      chopMessage_boundary_lengths [OF e61]
    by simp
qed

text \<open>
  Claim C8, as amended. \<^verbatim>\<open>chopMessage\<close> is a function of its argument alone: it reads
  and writes nothing else, and its loop terminates. For a string without surrogate code
  points it returns a list of blocks, whatever the length of the string; for a string
  with a surrogate code point it raises \<^verbatim>\<open>UnicodeEncodeError\<close>. Equal strings give
  equal results.
\<close>

theorem chopMessage_total_unless_surrogate:
  "((\<forall>c\<in>set s. \<not> surrogate c) \<longrightarrow> (\<exists>blocks. chopMessage s = Inr blocks))
   \<and> ((\<exists>c\<in>set s. surrogate c) \<longrightarrow> chopMessage s = Inl UnicodeEncodeError)
   \<and> (s = s' \<longrightarrow> chopMessage s = chopMessage s')"
proof -
  have "\<exists>blocks. chopMessage s = Inr blocks" if "\<forall>c\<in>set s. \<not> surrogate c"
  proof -
    from that encode_Inr [of s] obtain p where "encode s = Inr p"
      by blast
    from chopMessage_Inr [OF this] show ?thesis
      by blast
  qed
  moreover have "chopMessage s = Inl UnicodeEncodeError" if "\<exists>c\<in>set s. surrogate c"
    using that encode_Inl [of s UnicodeEncodeError] by (simp add: chopMessage_Inl)
  ultimately show ?thesis
    by blast
qed

theorem chopMessage_total_unless_surrogate_witness:
  "\<not> surrogate 0x68 \<and> \<not> surrogate 0x69 \<and> (\<exists>blocks. chopMessage [0x68, 0x69] = Inr blocks)
   \<and> (\<exists>c\<in>set [0x68, 0xDC00]. surrogate c) \<and> chopMessage [0x68, 0xDC00] = Inl UnicodeEncodeError
   \<and> chopMessage [0x68, 0x69] = chopMessage [0x68, 0x69]"
  using chopMessage_total_unless_surrogate [of "[0x68, 0x69]" "[0x68, 0x69]"]
    chopMessage_total_unless_surrogate [of "[0x68, 0xDC00]"]
  by (simp add: surrogate_def)

text \<open>
  Claim C8, as stated, fails: the string whose only character is the surrogate code
  point \<^verbatim>\<open>U+D800\<close> makes \<^verbatim>\<open>str.encode()\<close>, and so \<^verbatim>\<open>chopMessage\<close>, raise.
\<close>

theorem chopMessage_raises_on_surrogate: "chopMessage [0xD800] = Inl UnicodeEncodeError"
  by (simp add: chopMessage_def toU32_def py_bytes_def encode_char_def)

text \<open>
  Claim C10. When \<open>s\<close> can be encoded, the blocks of \<^verbatim>\<open>chopMessage(s)\<close>, concatenated,
  are \<^verbatim>\<open>toU32(len(s))\<close> followed by \<^verbatim>\<open>s.encode()\<close>. The blocks hold
  \<open>4 + len(s.encode())\<close> bytes in total, while the header holds the number of characters
  \<open>len(s)\<close> (its remainder modulo \<open>2 ^ 32\<close>). The number of payload bytes equals the
  number of characters exactly when every character of \<open>s\<close> encodes to a single byte.
\<close>

theorem chopMessage_concat_header_payload:
  assumes "encode s = Inr payload"
  shows "\<exists>header blocks.
           toU32 (int (length s)) = Inr header \<and> chopMessage s = Inr blocks
           \<and> concat blocks = header @ payload
           \<and> sum_list (map length blocks) = 4 + length payload
           \<and> int (le_value header) = int (length s) mod 2 ^ 32
           \<and> (length payload = length s \<longleftrightarrow> (\<forall>c\<in>set s. \<exists>b. encode_char c = Inr [b]))"
proof -
  from le_value_toU32 [of "int (length s)"] obtain header
    where h: "toU32 (int (length s)) = Inr header" and l: "length header = 4"
      and v: "int (le_value header) = int (length s) mod 2 ^ 32"
    by blast
  have c: "chopMessage s = Inr (chop_loop (header @ payload) 0 [])"
    by (simp add: chopMessage_def h assms)
  have k: "concat (chop_loop (header @ payload) 0 []) = header @ payload"
    by (simp add: concat_chop_loop)
  have "length (concat (chop_loop (header @ payload) 0 [])) = 4 + length payload"
    unfolding k by (simp add: l)
  then have n: "sum_list (map length (chop_loop (header @ payload) 0 [])) = 4 + length payload"
    by (simp only: length_concat)
  have q: "length payload = length s \<longleftrightarrow> (\<forall>c\<in>set s. \<exists>b. encode_char c = Inr [b])"
    using encode_length [OF assms] by (simp only: encode_char_single)
  from h c k n v q show ?thesis
    by blast
qed

theorem chopMessage_concat_header_payload_witness:
  "encode [0x68, 0xE9] = Inr [0x68, 0xC3, 0xA9]
   \<and> (\<exists>header blocks.
         toU32 (int (length [0x68, 0xE9 :: nat])) = Inr header
         \<and> chopMessage [0x68, 0xE9] = Inr blocks
         \<and> concat blocks = header @ [0x68, 0xC3, 0xA9]
         \<and> sum_list (map length blocks) = 4 + length [0x68, 0xC3, 0xA9 :: byte]
         \<and> int (le_value header) = int (length [0x68, 0xE9 :: nat]) mod 2 ^ 32
         \<and> (length [0x68, 0xC3, 0xA9 :: byte] = length [0x68, 0xE9 :: nat]
              \<longleftrightarrow> (\<forall>c\<in>set [0x68, 0xE9]. \<exists>b. encode_char c = Inr [b])))"
proof -
  have e: "encode [0x68, 0xE9] = Inr [0x68, 0xC3, 0xA9]"
    by (simp add: encode_char_def)
  show ?thesis
    by (rule conjI [OF e chopMessage_concat_header_payload [OF e]])
qed

section \<open>Properties of the transfer loop\<close>

subsection \<open>One round\<close>

declare transfer_loop.simps [simp del]

lemma transfer_loop_end: "length blocks \<le> i \<Longrightarrow> transfer_loop t blocks i evs = (Inr (), evs)"
  by (subst transfer_loop.simps) simp

lemma transfer_loop_write_raises:
  assumes "i < length blocks" and "write_result t i (blocks ! i) = Some e"
  shows "transfer_loop t blocks i evs =
           (Inl (TransportError e), evs @ [Print_sending (blocks ! i), Write (blocks ! i)])"
  using assms by (subst transfer_loop.simps) (simp add: Let_def)

lemma transfer_loop_read_raises:
  assumes "i < length blocks" and "write_result t i (blocks ! i) = None"
    and "read_result t i 64 = Inl e"
  shows "transfer_loop t blocks i evs = (Inl (TransportError e), evs @ round_events (blocks ! i))"
  using assms by (subst transfer_loop.simps) (simp add: Let_def round_events_def)

lemma transfer_loop_ack:
  assumes "i + 1 < length blocks" and "write_result t i (blocks ! i) = None"
    and "read_result t i 64 = Inr []"
  shows "transfer_loop t blocks i evs =
           transfer_loop t blocks (i + 1) (evs @ round_events (blocks ! i))"
  using assms by (subst transfer_loop.simps) (simp add: Let_def round_events_def)

lemma transfer_loop_mid_response:
  assumes "i + 1 < length blocks" and "write_result t i (blocks ! i) = None"
    and "read_result t i 64 = Inr response" and "response \<noteq> []"
  shows "transfer_loop t blocks i evs =
           (Inl (DeviceReportedError (map unat response)), evs @ round_events (blocks ! i))"
  using assms
  by (subst transfer_loop.simps) (simp add: Let_def round_events_def DeviceReportedError_def)

lemma transfer_loop_last_empty:
  assumes "i + 1 = length blocks" and "write_result t i (blocks ! i) = None"
    and "read_result t i 64 = Inr []"
  shows "transfer_loop t blocks i evs = (Inl IncompleteHandshake, evs @ round_events (blocks ! i))"
  using assms
  by (subst transfer_loop.simps) (simp add: Let_def round_events_def handshake_message_def)

lemma transfer_loop_last_wrong_length:
  assumes "i + 1 = length blocks" and "write_result t i (blocks ! i) = None"
    and "read_result t i 64 = Inr response" and "length response \<noteq> 0"
    and "length response \<noteq> 32"
  shows "transfer_loop t blocks i evs =
           (Inl (DeviceReportedError (map unat response)), evs @ round_events (blocks ! i))"
  using assms
  by (subst transfer_loop.simps) (simp add: Let_def round_events_def DeviceReportedError_def)

lemma transfer_loop_last_digest:
  assumes "i + 1 = length blocks" and "write_result t i (blocks ! i) = None"
    and "read_result t i 64 = Inr response" and "length response = 32"
  shows "transfer_loop t blocks i evs =
           (Inr (), evs @ round_events (blocks ! i) @ [Print (lit ''hash: '' @ map unat response)])"
proof -
  have "transfer_loop t blocks i evs =
          transfer_loop t blocks (i + 1)
            (evs @ round_events (blocks ! i) @ [Print (lit ''hash: '' @ map unat response)])"
    using assms by (subst transfer_loop.simps) (simp add: Let_def round_events_def)
  also have "\<dots> = (Inr (), evs @ round_events (blocks ! i) @ [Print (lit ''hash: '' @ map unat response)])"
    using assms(1) by (simp add: transfer_loop_end)
  finally show ?thesis .
qed

subsection \<open>The events of the rounds\<close>

lemma writes_of_append: "writes_of (xs @ ys) = writes_of xs @ writes_of ys"
  by (induction xs rule: writes_of.induct) simp_all

lemma reads_of_append: "reads_of (xs @ ys) = reads_of xs @ reads_of ys"
  by (induction xs rule: reads_of.induct) simp_all

lemma io_of_append: "io_of (xs @ ys) = io_of xs @ io_of ys"
  by (induction xs rule: io_of.induct) simp_all

lemma writes_of_rounds: "writes_of (concat (map round_events bs)) = bs"
  by (induction bs) (simp_all add: writes_of_append round_events_def)

lemma reads_of_rounds: "reads_of (concat (map round_events bs)) = replicate (length bs) 64"
  by (induction bs) (simp_all add: reads_of_append round_events_def)

lemma io_of_rounds:
  "io_of (concat (map round_events bs)) = concat (map (\<lambda>b. [Write b, Read 64]) bs)"
  by (induction bs) (simp_all add: io_of_append round_events_def)

lemma acked_before_Suc:
  "acked_before t blocks (Suc i) \<longleftrightarrow>
     acked_before t blocks i \<and> write_result t i (blocks ! i) = None
     \<and> read_result t i 64 = Inr []"
  by (auto simp add: acked_before_def)

lemma transfer_arrives:
  assumes "acked_before t blocks i" and "i < length blocks"
  shows "transfer t blocks = transfer_loop t blocks i (concat (map round_events (take i blocks)))"
  using assms
proof (induction i)
  case 0
  show ?case by (simp add: transfer_def)
next
  case (Suc i)
  from Suc.prems have a: "acked_before t blocks i" and w: "write_result t i (blocks ! i) = None"
    and r: "read_result t i 64 = Inr []" and l: "i + 1 < length blocks"
    by (simp_all add: acked_before_Suc)
  have "transfer t blocks = transfer_loop t blocks i (concat (map round_events (take i blocks)))"
    using a l by (simp add: Suc.IH)
  also have "\<dots> = transfer_loop t blocks (i + 1)
                      (concat (map round_events (take i blocks)) @ round_events (blocks ! i))"
    by (rule transfer_loop_ack [OF l w r])
  also have "concat (map round_events (take i blocks)) @ round_events (blocks ! i)
               = concat (map round_events (take (Suc i) blocks))"
    using l by (simp add: take_Suc_conv_app_nth)
  finally show ?case by simp
qed

lemma take_last_round:
  "blocks \<noteq> [] \<Longrightarrow>
   concat (map round_events (take (length blocks - 1) blocks))
     @ round_events (blocks ! (length blocks - 1)) = concat (map round_events blocks)"
proof -
  assume "blocks \<noteq> []"
  then have "take (Suc (length blocks - 1)) blocks = take (length blocks - 1) blocks @ [blocks ! (length blocks - 1)]"
    by (intro take_Suc_conv_app_nth) simp
  moreover have "Suc (length blocks - 1) = length blocks"
    using \<open>blocks \<noteq> []\<close> by simp
  ultimately have "blocks = take (length blocks - 1) blocks @ [blocks ! (length blocks - 1)]"
    by simp
  then have "concat (map round_events blocks) = concat (map round_events (take (length blocks - 1) blocks @ [blocks ! (length blocks - 1)]))"
    by simp
  then show ?thesis by simp
qed

subsection \<open>What the loop can raise\<close>

lemma handshake_is_not_reported: "handshake_message \<noteq> lit ''Device reported an error: '' @ m"
  by (simp add: handshake_message_def lit_def)

lemma transfer_loop_failure:
  assumes "fst (transfer_loop t blocks i evs) = Inl x"
  shows "(\<exists>e. x = TransportError e) \<or> x = IncompleteHandshake
         \<or> (\<exists>j<length blocks. \<exists>r. read_result t j 64 = Inr r \<and> r \<noteq> []
               \<and> x = DeviceReportedError (map unat r))"
  using assms
proof (induction "length blocks - i" arbitrary: i evs)
  case 0
  then show ?case by (simp add: transfer_loop_end)
next
  case (Suc n)
  from Suc.hyps(2) have i: "i < length blocks"
    by simp
  show ?case
  proof (cases "write_result t i (blocks ! i)")
    case (Some e)
    with Suc.prems i show ?thesis
      by (auto simp add: transfer_loop_write_raises)
  next
    case None
    show ?thesis
    proof (cases "read_result t i 64")
      case (Inl e)
      with Suc.prems i None show ?thesis
        by (auto simp add: transfer_loop_read_raises)
    next
      case (Inr r)
      show ?thesis
      proof (cases "i + 1 = length blocks")
        case True
        consider "r = []" | "length r \<noteq> 0" "length r \<noteq> 32" | "length r = 32"
          by auto
        then show ?thesis
        proof cases
          case 1
          with Suc.prems None Inr True show ?thesis
            by (auto simp add: transfer_loop_last_empty)
        next
          case 2
          from Suc.prems have "x = DeviceReportedError (map unat r)"
            by (auto simp add: transfer_loop_last_wrong_length [OF True None Inr 2])
          moreover from 2 have "r \<noteq> []"
            by auto
          ultimately show ?thesis
            using i Inr by blast
        next
          case 3
          with Suc.prems show ?thesis
            by (simp add: transfer_loop_last_digest [OF True None Inr 3])
        qed
      next
        case False
        with i have l: "i + 1 < length blocks"
          by simp
        show ?thesis
        proof (cases "r = []")
          case True
          have "transfer_loop t blocks i evs =
                  transfer_loop t blocks (i + 1) (evs @ round_events (blocks ! i))"
            using Inr True by (simp add: transfer_loop_ack [OF l None])
          with Suc.prems
          have "fst (transfer_loop t blocks (i + 1) (evs @ round_events (blocks ! i))) = Inl x"
            by simp
          moreover have "n = length blocks - (i + 1)"
            using Suc.hyps(2) by simp
          ultimately show ?thesis
            by (rule Suc.hyps(1) [rotated])
        next
          case nonempty: False
          from Suc.prems have "x = DeviceReportedError (map unat r)"
            by (auto simp add: transfer_loop_mid_response [OF l None Inr nonempty])
          then show ?thesis
            using i Inr nonempty by blast
        qed
      qed
    qed
  qed
qed

subsection \<open>Claims about the transfer loop\<close>

lemma last_index: "blocks \<noteq> [] \<Longrightarrow> length blocks - 1 < length blocks \<and> length blocks - 1 + 1 = length blocks"
  by (cases blocks) simp_all

lemma transfer_last_round:
  assumes "blocks \<noteq> []" and "acked_before t blocks (length blocks - 1)"
  shows "transfer t blocks =
           transfer_loop t blocks (length blocks - 1)
             (concat (map round_events (take (length blocks - 1) blocks)))"
  using assms last_index [OF assms(1)] by (simp add: transfer_arrives)

lemma acked_beforeI:
  assumes "\<forall>i<length blocks. write_result t i (blocks ! i) = None"
    and "\<forall>i<length blocks - 1. read_result t i 64 = Inr []"
  shows "acked_before t blocks (length blocks - 1)"
  using assms by (simp add: acked_before_def list_all_iff)

text \<open>
  Claim C2. Let \<open>blocks\<close> be non-empty, and let every write return, every read before
  the last return the empty response and the last read return 32 bytes. Then the run ends
  without an exception and its last effect is to print \<^verbatim>\<open>"hash: "\<close> followed by these
  32 bytes as characters, which is how the script surfaces the digest. Its events are
  those of one full round per block, in the order of the blocks: it writes exactly the
  given blocks, issues as many reads, each of 64 bytes, and every write is followed by
  its read before the next write.
\<close>

theorem transfer_acks_then_digest:
  assumes "blocks \<noteq> []"
    and "\<forall>i<length blocks. write_result t i (blocks ! i) = None"
    and "\<forall>i<length blocks - 1. read_result t i 64 = Inr []"
    and "read_result t (length blocks - 1) 64 = Inr digest"
    and "length digest = 32"
  shows "transfer t blocks =
           (Inr (), concat (map round_events blocks) @ [Print (lit ''hash: '' @ map unat digest)])
       \<and> writes_of (snd (transfer t blocks)) = blocks
       \<and> reads_of (snd (transfer t blocks)) = replicate (length blocks) 64
       \<and> io_of (snd (transfer t blocks)) = concat (map (\<lambda>b. [Write b, Read 64]) blocks)"
proof -
  let ?n = "length blocks - 1"
  note n = last_index [OF assms(1)]
  have w: "write_result t ?n (blocks ! ?n) = None"
    using assms(2) n by simp
  have "transfer t blocks =
          transfer_loop t blocks ?n (concat (map round_events (take ?n blocks)))"
    by (rule transfer_last_round [OF assms(1) acked_beforeI [OF assms(2,3)]])
  also have "\<dots> = (Inr (), concat (map round_events (take ?n blocks)) @ round_events (blocks ! ?n)
                       @ [Print (lit ''hash: '' @ map unat digest)])"
    using n by (intro transfer_loop_last_digest [OF _ w assms(4,5)]) simp
  finally have "transfer t blocks =
      (Inr (), concat (map round_events blocks) @ [Print (lit ''hash: '' @ map unat digest)])"
    using take_last_round [OF assms(1)] by simp
  then show ?thesis
    by (simp add: writes_of_append reads_of_append io_of_append writes_of_rounds
        reads_of_rounds io_of_rounds)
qed

theorem transfer_acks_then_digest_witness:
  "[[1], [2]] \<noteq> ([] :: bytes list)
   \<and> write_result (replying [[], replicate 32 7] :: unit transport) 0 [1] = None
   \<and> write_result (replying [[], replicate 32 7] :: unit transport) 1 [2] = None
   \<and> read_result (replying [[], replicate 32 7] :: unit transport) 0 64 = Inr []
   \<and> read_result (replying [[], replicate 32 7] :: unit transport) 1 64 = Inr (replicate 32 7)
   \<and> length (replicate 32 7 :: bytes) = 32
   \<and> transfer (replying [[], replicate 32 7] :: unit transport) [[1], [2]] =
        (Inr (), concat (map round_events [[1], [2]])
                   @ [Print (lit ''hash: '' @ map unat (replicate 32 7 :: bytes))])
   \<and> writes_of (snd (transfer (replying [[], replicate 32 7] :: unit transport) [[1], [2]]))
        = [[1], [2]]
   \<and> reads_of (snd (transfer (replying [[], replicate 32 7] :: unit transport) [[1], [2]]))
        = [64, 64]
   \<and> io_of (snd (transfer (replying [[], replicate 32 7] :: unit transport) [[1], [2]]))
        = [Write [1], Read 64, Write [2], Read 64]"
proof -
  let ?t = "replying [[], replicate 32 7] :: unit transport"
  have w0: "write_result ?t 0 [1] = None" and w1: "write_result ?t 1 [2] = None"
    and r0: "read_result ?t 0 64 = Inr []"
    and r1: "read_result ?t 1 64 = Inr (replicate 32 7)"
    by (simp_all add: replying_def)
  have h1: "[[1], [2]] \<noteq> ([] :: bytes list)"
    by simp
  have h2: "\<forall>i<length [[1], [2 :: byte]]. write_result ?t i ([[1], [2]] ! i) = None"
    using w0 w1 by (simp add: less_Suc_eq numeral_2_eq_2)
  have h3: "\<forall>i<length [[1], [2 :: byte]] - 1. read_result ?t i 64 = Inr []"
    using r0 by simp
  have h4: "read_result ?t (length [[1], [2 :: byte]] - 1) 64 = Inr (replicate 32 7)"
    using r1 by simp
  have h5: "length (replicate 32 7 :: bytes) = 32"
    by simp
  note r = transfer_acks_then_digest [OF h1 h2 h3 h4 h5]
  from r have a: "transfer ?t [[1], [2]] =
          (Inr (), concat (map round_events [[1], [2]])
                     @ [Print (lit ''hash: '' @ map unat (replicate 32 7 :: bytes))])"
    by blast
  from r have b: "writes_of (snd (transfer ?t [[1], [2]])) = [[1], [2]]"
    by blast
  from r have "reads_of (snd (transfer ?t [[1], [2]])) = replicate (length [[1], [2 :: byte]]) 64"
    by blast
  then have c: "reads_of (snd (transfer ?t [[1], [2]])) = [64, 64]"
    by simp
  from r have "io_of (snd (transfer ?t [[1], [2]]))
                 = concat (map (\<lambda>b. [Write b, Read 64]) [[1], [2]])"
    by blast
  then have d: "io_of (snd (transfer ?t [[1], [2]])) = [Write [1], Read 64, Write [2], Read 64]"
    by simp
  from h1 w0 w1 r0 r1 h5 a b c d show ?thesis
    by (intro conjI)
qed

text \<open>
  Claim C3. Let the loop arrive at a round \<open>i\<close> that is not the last, let the write of
  round \<open>i\<close> return and its read return a non-empty response. Then the run raises the
  exception with the message \<^verbatim>\<open>"Device reported an error: "\<close> followed by the response,
  one character per byte, and the blocks written are exactly those of the rounds \<open>0\<close> to
  \<open>i\<close>: no later block is written.
\<close>

theorem transfer_mid_stream_response:
  assumes "i + 1 < length blocks"
    and "acked_before t blocks i"
    and "write_result t i (blocks ! i) = None"
    and "read_result t i 64 = Inr response"
    and "response \<noteq> []"
  shows "transfer t blocks =
           (Inl (DeviceReportedError (map unat response)),
            concat (map round_events (take (i + 1) blocks)))
       \<and> writes_of (snd (transfer t blocks)) = take (i + 1) blocks"
proof -
  have i: "i < length blocks"
    using assms(1) by simp
  have "transfer t blocks = transfer_loop t blocks i (concat (map round_events (take i blocks)))"
    by (rule transfer_arrives [OF assms(2) i])
  also have "\<dots> = (Inl (DeviceReportedError (map unat response)),
                     concat (map round_events (take i blocks)) @ round_events (blocks ! i))"
    by (rule transfer_loop_mid_response [OF assms(1,3,4,5)])
  finally have "transfer t blocks =
      (Inl (DeviceReportedError (map unat response)),
       concat (map round_events (take (i + 1) blocks)))"
    using i by (simp add: take_Suc_conv_app_nth)
  then show ?thesis
    by (simp only: snd_conv writes_of_rounds simp_thms)
qed

theorem transfer_mid_stream_response_witness:
  "(1::nat) + 1 < length [[1], [2], [3 :: byte]]
   \<and> acked_before (replying [[], [0x45, 0x52]] :: unit transport) [[1], [2], [3]] 1
   \<and> write_result (replying [[], [0x45, 0x52]] :: unit transport) 1 ([[1], [2], [3]] ! 1) = None
   \<and> read_result (replying [[], [0x45, 0x52]] :: unit transport) 1 64 = Inr [0x45, 0x52]
   \<and> [0x45, 0x52] \<noteq> ([] :: bytes)
   \<and> transfer (replying [[], [0x45, 0x52]] :: unit transport) [[1], [2], [3]] =
         (Inl (DeviceReportedError (map unat [0x45, 0x52 :: byte])),
          concat (map round_events (take (1 + 1) [[1], [2], [3]])))
   \<and> writes_of (snd (transfer (replying [[], [0x45, 0x52]] :: unit transport) [[1], [2], [3]]))
         = take (1 + 1) [[1], [2], [3]]"
proof -
  let ?t = "replying [[], [0x45, 0x52]] :: unit transport"
  have h1: "(1::nat) + 1 < length [[1], [2], [3 :: byte]]"
    by simp
  have h2: "acked_before ?t [[1], [2], [3]] 1"
    by (simp add: acked_before_def replying_def)
  have h3: "write_result ?t 1 ([[1], [2], [3]] ! 1) = None"
    by (simp add: replying_def)
  have h4: "read_result ?t 1 64 = Inr [0x45, 0x52]"
    by (simp add: replying_def)
  have h5: "[0x45, 0x52] \<noteq> ([] :: bytes)"
    by simp
  from transfer_mid_stream_response [OF h1 h2 h3 h4 h5]
  have "transfer ?t [[1], [2], [3]] =
         (Inl (DeviceReportedError (map unat [0x45, 0x52 :: byte])),
          concat (map round_events (take (1 + 1) [[1], [2], [3]])))"
    and "writes_of (snd (transfer ?t [[1], [2], [3]])) = take (1 + 1) [[1], [2], [3]]"
    by blast+
  with h1 h2 h3 h4 h5 show ?thesis
    by (intro conjI)
qed

text \<open>
  Claim C4. Let \<open>blocks\<close> be non-empty, let the loop arrive at the last round, and let
  the write of this round return and its read return the empty response. Then the run
  raises the exception with the message about the handshake. This exception is none of
  those with the message \<^verbatim>\<open>"Device reported an error: ..."\<close>, and the run does not end
  normally.
\<close>

theorem transfer_incomplete_handshake:
  assumes "blocks \<noteq> []"
    and "acked_before t blocks (length blocks - 1)"
    and "write_result t (length blocks - 1) (blocks ! (length blocks - 1)) = None"
    and "read_result t (length blocks - 1) 64 = Inr []"
  shows "transfer t blocks = (Inl IncompleteHandshake, concat (map round_events blocks))
       \<and> (\<forall>m. fst (transfer t blocks) \<noteq> Inl (DeviceReportedError m))
       \<and> fst (transfer t blocks) \<noteq> Inr ()"
proof -
  let ?n = "length blocks - 1"
  have n: "?n + 1 = length blocks"
    using last_index [OF assms(1)] by simp
  have "transfer t blocks =
          transfer_loop t blocks ?n (concat (map round_events (take ?n blocks)))"
    by (rule transfer_last_round [OF assms(1,2)])
  also have "\<dots> = (Inl IncompleteHandshake,
                     concat (map round_events (take ?n blocks)) @ round_events (blocks ! ?n))"
    by (rule transfer_loop_last_empty [OF n assms(3,4)])
  finally have "transfer t blocks = (Inl IncompleteHandshake, concat (map round_events blocks))"
    using take_last_round [OF assms(1)] by simp
  then show ?thesis
    by (simp add: DeviceReportedError_def handshake_is_not_reported)
qed

theorem transfer_incomplete_handshake_witness:
  "[[1], [2]] \<noteq> ([] :: bytes list)
   \<and> acked_before (replying [[], []] :: unit transport) [[1], [2]] (length [[1], [2 :: byte]] - 1)
   \<and> write_result (replying [[], []] :: unit transport) (length [[1], [2 :: byte]] - 1)
         ([[1], [2]] ! (length [[1], [2 :: byte]] - 1)) = None
   \<and> read_result (replying [[], []] :: unit transport) (length [[1], [2 :: byte]] - 1) 64 = Inr []
   \<and> transfer (replying [[], []] :: unit transport) [[1], [2]] =
         (Inl IncompleteHandshake, concat (map round_events [[1], [2]]))
   \<and> (\<forall>m. fst (transfer (replying [[], []] :: unit transport) [[1], [2]])
              \<noteq> Inl (DeviceReportedError m))
   \<and> fst (transfer (replying [[], []] :: unit transport) [[1], [2]]) \<noteq> Inr ()"
proof -
  let ?t = "replying [[], []] :: unit transport"
  have h1: "[[1], [2]] \<noteq> ([] :: bytes list)"
    by simp
  have h2: "acked_before ?t [[1], [2]] (length [[1], [2 :: byte]] - 1)"
    by (simp add: acked_before_def replying_def)
  have h3: "write_result ?t (length [[1], [2 :: byte]] - 1)
              ([[1], [2]] ! (length [[1], [2 :: byte]] - 1)) = None"
    by (simp add: replying_def)
  have h4: "read_result ?t (length [[1], [2 :: byte]] - 1) 64 = Inr []"
    by (simp add: replying_def)
  from transfer_incomplete_handshake [OF h1 h2 h3 h4]
  have "transfer ?t [[1], [2]] = (Inl IncompleteHandshake, concat (map round_events [[1], [2]]))"
    and "\<forall>m. fst (transfer ?t [[1], [2]]) \<noteq> Inl (DeviceReportedError m)"
    and "fst (transfer ?t [[1], [2]]) \<noteq> Inr ()"
    by blast+
  with h1 h2 h3 h4 show ?thesis
    by (intro conjI)
qed

text \<open>
  Claim C5. Let \<open>blocks\<close> be non-empty, let the loop arrive at the last round, and let
  the write of this round return and its read return a response whose length is neither
  0 nor 32. Then the run raises the exception with the message
  \<^verbatim>\<open>"Device reported an error: "\<close> followed by the response, one character per byte.
\<close>

theorem transfer_final_wrong_length:
  assumes "blocks \<noteq> []"
    and "acked_before t blocks (length blocks - 1)"
    and "write_result t (length blocks - 1) (blocks ! (length blocks - 1)) = None"
    and "read_result t (length blocks - 1) 64 = Inr response"
    and "length response \<noteq> 0"
    and "length response \<noteq> 32"
  shows "transfer t blocks =
           (Inl (DeviceReportedError (map unat response)), concat (map round_events blocks))"
proof -
  let ?n = "length blocks - 1"
  have n: "?n + 1 = length blocks"
    using last_index [OF assms(1)] by simp
  have "transfer t blocks =
          transfer_loop t blocks ?n (concat (map round_events (take ?n blocks)))"
    by (rule transfer_last_round [OF assms(1,2)])
  also have "\<dots> = (Inl (DeviceReportedError (map unat response)),
                     concat (map round_events (take ?n blocks)) @ round_events (blocks ! ?n))"
    by (rule transfer_loop_last_wrong_length [OF n assms(3,4,5,6)])
  finally show ?thesis
    using take_last_round [OF assms(1)] by simp
qed

theorem transfer_final_wrong_length_witness:
  "[[1], [2]] \<noteq> ([] :: bytes list)
   \<and> acked_before (replying [[], [0x45, 0x52]] :: unit transport) [[1], [2]]
         (length [[1], [2 :: byte]] - 1)
   \<and> write_result (replying [[], [0x45, 0x52]] :: unit transport) (length [[1], [2 :: byte]] - 1)
         ([[1], [2]] ! (length [[1], [2 :: byte]] - 1)) = None
   \<and> read_result (replying [[], [0x45, 0x52]] :: unit transport) (length [[1], [2 :: byte]] - 1) 64
         = Inr [0x45, 0x52]
   \<and> length [0x45, 0x52 :: byte] \<noteq> 0
   \<and> length [0x45, 0x52 :: byte] \<noteq> 32
   \<and> transfer (replying [[], [0x45, 0x52]] :: unit transport) [[1], [2]] =
         (Inl (DeviceReportedError (map unat [0x45, 0x52 :: byte])),
          concat (map round_events [[1], [2]]))"
proof -
  let ?t = "replying [[], [0x45, 0x52]] :: unit transport"
  have h1: "[[1], [2]] \<noteq> ([] :: bytes list)"
    by simp
  have h2: "acked_before ?t [[1], [2]] (length [[1], [2 :: byte]] - 1)"
    by (simp add: acked_before_def replying_def)
  have h3: "write_result ?t (length [[1], [2 :: byte]] - 1)
              ([[1], [2]] ! (length [[1], [2 :: byte]] - 1)) = None"
    by (simp add: replying_def)
  have h4: "read_result ?t (length [[1], [2 :: byte]] - 1) 64 = Inr [0x45, 0x52]"
    by (simp add: replying_def)
  have h5: "length [0x45, 0x52 :: byte] \<noteq> 0"
    by simp
  have h6: "length [0x45, 0x52 :: byte] \<noteq> 32"
    by simp
  from h1 h2 h3 h4 h5 h6 transfer_final_wrong_length [OF h1 h2 h3 h4 h5 h6] show ?thesis
    by (intro conjI)
qed

text \<open>
  Claim C6, as amended. Let the loop arrive at round \<open>i\<close> and let the write of this
  round raise \<open>e\<close>. Then the run raises \<open>e\<close> itself, as the transport raised it: nothing
  is added that names the stage or the index. The writes made are those of the blocks
  \<open>0\<close> to \<open>i\<close>, the last of them the one that raised; \<open>i\<close> reads were made, and
  nothing follows the failed write. Whatever a run raises is an exception of the
  transport, or the exception with the message about the handshake, or the exception with
  the message \<^verbatim>\<open>"Device reported an error: "\<close> followed by a non-empty response that a
  read returned, one character per byte.
\<close>

theorem transfer_write_failure:
  "(i < length blocks \<and> acked_before t blocks i \<and> write_result t i (blocks ! i) = Some e \<longrightarrow>
      transfer t blocks =
        (Inl (TransportError e),
         concat (map round_events (take i blocks)) @ [Print_sending (blocks ! i), Write (blocks ! i)])
      \<and> writes_of (snd (transfer t blocks)) = take (i + 1) blocks
      \<and> reads_of (snd (transfer t blocks)) = replicate i 64)
   \<and> (\<forall>x. fst (transfer t blocks) = Inl x \<longrightarrow>
         (\<exists>e'. x = TransportError e') \<or> x = IncompleteHandshake
         \<or> (\<exists>j<length blocks. \<exists>r. read_result t j 64 = Inr r \<and> r \<noteq> []
               \<and> x = DeviceReportedError (map unat r)))"
proof (intro conjI impI allI)
  assume a: "i < length blocks \<and> acked_before t blocks i \<and> write_result t i (blocks ! i) = Some e"
  then have i: "i < length blocks" and k: "acked_before t blocks i"
    and w: "write_result t i (blocks ! i) = Some e"
    by simp_all
  have "transfer t blocks = transfer_loop t blocks i (concat (map round_events (take i blocks)))"
    by (rule transfer_arrives [OF k i])
  also have "\<dots> = (Inl (TransportError e),
                     concat (map round_events (take i blocks))
                       @ [Print_sending (blocks ! i), Write (blocks ! i)])"
    by (rule transfer_loop_write_raises [OF i w])
  finally show r: "transfer t blocks =
      (Inl (TransportError e),
       concat (map round_events (take i blocks)) @ [Print_sending (blocks ! i), Write (blocks ! i)])" .
  show "writes_of (snd (transfer t blocks)) = take (i + 1) blocks"
    using i by (simp add: r writes_of_append writes_of_rounds take_Suc_conv_app_nth)
  show "reads_of (snd (transfer t blocks)) = replicate i 64"
    using i by (simp add: r reads_of_append reads_of_rounds)
next
  fix x
  assume "fst (transfer t blocks) = Inl x"
  then show "(\<exists>e'. x = TransportError e') \<or> x = IncompleteHandshake
         \<or> (\<exists>j<length blocks. \<exists>r. read_result t j 64 = Inr r \<and> r \<noteq> []
               \<and> x = DeviceReportedError (map unat r))"
    unfolding transfer_def by (rule transfer_loop_failure)
qed

theorem transfer_write_failure_witness:
  "((1::nat) < length [[1], [2 :: byte]]
    \<and> acked_before (write_fails_at 1 ''pipe'') [[1], [2]] 1
    \<and> write_result (write_fails_at 1 ''pipe'') 1 ([[1], [2]] ! 1) = Some ''pipe'')
   \<and> transfer (write_fails_at 1 ''pipe'') [[1], [2]] =
        (Inl (TransportError ''pipe''),
         concat (map round_events (take 1 [[1], [2]])) @ [Print_sending ([[1], [2]] ! 1), Write ([[1], [2]] ! 1)])
   \<and> writes_of (snd (transfer (write_fails_at 1 ''pipe'') [[1], [2]])) = take (1 + 1) [[1], [2]]
   \<and> reads_of (snd (transfer (write_fails_at 1 ''pipe'') [[1], [2]])) = replicate 1 64
   \<and> fst (transfer (write_fails_at 1 ''pipe'') [[1], [2]]) = Inl (TransportError ''pipe'')
   \<and> ((\<exists>e'. TransportError ''pipe'' = TransportError e')
        \<or> TransportError ''pipe'' = IncompleteHandshake
        \<or> (\<exists>j<length [[1], [2 :: byte]]. \<exists>r.
              read_result (write_fails_at 1 ''pipe'') j 64 = Inr r \<and> r \<noteq> []
              \<and> TransportError ''pipe'' = DeviceReportedError (map unat r)))"
proof -
  let ?t = "write_fails_at 1 ''pipe''"
  have h: "(1::nat) < length [[1], [2 :: byte]] \<and> acked_before ?t [[1], [2]] 1
           \<and> write_result ?t 1 ([[1], [2]] ! 1) = Some ''pipe''"
    by (simp add: acked_before_def write_fails_at_def)
  note inst = transfer_write_failure [of 1 "[[1], [2]]" ?t "''pipe''"]
  from inst h have r: "transfer ?t [[1], [2]] =
        (Inl (TransportError ''pipe''),
         concat (map round_events (take 1 [[1], [2]])) @ [Print_sending ([[1], [2]] ! 1), Write ([[1], [2]] ! 1)])"
    and w: "writes_of (snd (transfer ?t [[1], [2]])) = take (1 + 1) [[1], [2]]"
    and d: "reads_of (snd (transfer ?t [[1], [2]])) = replicate 1 64"
    by blast+
  from r have f: "fst (transfer ?t [[1], [2]]) = Inl (TransportError ''pipe'')"
    by simp
  from inst f have c: "(\<exists>e'. TransportError ''pipe'' = TransportError e')
        \<or> TransportError ''pipe'' = IncompleteHandshake
        \<or> (\<exists>j<length [[1], [2 :: byte]]. \<exists>r.
              read_result ?t j 64 = Inr r \<and> r \<noteq> []
              \<and> TransportError ''pipe'' = DeviceReportedError (map unat r))"
    by blast
  from h have "(1::nat) < length [[1], [2 :: byte]]" and "acked_before ?t [[1], [2]] 1"
    and "write_result ?t 1 ([[1], [2]] ! 1) = Some ''pipe''"
    by blast+
  with r w d f c show ?thesis
    by (intro conjI)
qed

text \<open>
  Claim C6, as stated, fails: a write that fails in round 0 and a write that fails in
  round 1 make the run raise the same exception, so the exception does not name the
  index. In the first run one block was written, in the second two.
\<close>

theorem transfer_write_failure_hides_index:
  "fst (transfer (write_fails_at 0 ''pipe'') [[1], [2]]) = Inl (TransportError ''pipe'')
   \<and> fst (transfer (write_fails_at 1 ''pipe'') [[1], [2]]) = Inl (TransportError ''pipe'')
   \<and> writes_of (snd (transfer (write_fails_at 0 ''pipe'') [[1], [2]])) = [[1]]
   \<and> writes_of (snd (transfer (write_fails_at 1 ''pipe'') [[1], [2]])) = [[1], [2]]"
proof -
  have a0: "acked_before (write_fails_at 0 ''pipe'') [[1], [2]] 0"
    by (simp add: acked_before_def)
  have a1: "acked_before (write_fails_at 1 ''pipe'') [[1], [2]] 1"
    by (simp add: acked_before_def write_fails_at_def)
  have "transfer (write_fails_at 0 ''pipe'') [[1], [2]] =
          (Inl (TransportError ''pipe''), [Print_sending [1], Write [1]])"
    using transfer_arrives [OF a0] transfer_loop_write_raises [of 0 "[[1], [2]]" "write_fails_at 0 ''pipe''" "''pipe''" "[]"]
    by (simp add: write_fails_at_def)
  moreover have "transfer (write_fails_at 1 ''pipe'') [[1], [2]] =
          (Inl (TransportError ''pipe''), round_events [1] @ [Print_sending [2], Write [2]])"
    using transfer_arrives [OF a1] transfer_loop_write_raises [of 1 "[[1], [2]]" "write_fails_at 1 ''pipe''" "''pipe''" "round_events [1]"]
    by (simp add: write_fails_at_def)
  ultimately show ?thesis
    by (simp add: writes_of_append round_events_def)
qed

end
